theory Spec2Isabelle
  imports Complex_Main "HOL-Library.Multiset" "HOL-Library.Log_Nat"
begin

section \<open>Geometry\<close>

text \<open>
  Coordinates are JavaScript numbers, IEEE 754 binary64 values. A finite double is a real
  number, and every arithmetic operation of the source is the exact operation followed by
  rounding to the nearest double, ties to even: \<open>fl\<close>. A double has a significand of 53
  bits and is a multiple of \<open>2^-1074\<close>; \<open>fl x\<close> takes the integer part \<open>k\<close> of \<open>|x| * 2^1074\<close>,
  drops as many low bits as \<open>k\<close> has beyond 53, and rounds \<open>x\<close> to a multiple of that
  quantum. The exponent is not bounded above: overflow to \<open>Infinity\<close>, and \<open>NaN\<close>, are not
  modelled, and \<open>-0\<close> is \<open>0\<close> (the comparisons of the source do not tell them apart).
\<close>

definition rne :: "real \<Rightarrow> int" where
  "rne v =
     (let f = \<lfloor>v\<rfloor>; d = v - of_int f
      in if d < 1 / 2 then f else if 1 / 2 < d then f + 1 else if even f then f else f + 1)"

definition fl :: "real \<Rightarrow> real" where
  "fl x =
     (let k = \<lfloor>\<bar>x\<bar> * 2 ^ 1074\<rfloor>;
          s = nat (bitlen k - 53);
          q = 2 ^ s / 2 ^ 1074
      in of_int (rne (x / q)) * q)"

definition fadd :: "real \<Rightarrow> real \<Rightarrow> real" where
  "fadd a b = fl (a + b)"

definition fsub :: "real \<Rightarrow> real \<Rightarrow> real" where
  "fsub a b = fl (a - b)"

definition fmul :: "real \<Rightarrow> real \<Rightarrow> real" where
  "fmul a b = fl (a * b)"

definition fdiv :: "real \<Rightarrow> real \<Rightarrow> real" where
  "fdiv a b = fl (a / b)"

record rectangle =
  rx :: real
  ry :: real
  rw :: real
  rh :: real

record 'd point =
  px :: real
  py :: real
  data :: 'd

text \<open>
  Modelled from the spec: \<open>Geometry.js\<close> (classes Rectangle and Point) is not among the
  sources. \<open>contains(p)\<close> holds iff \<open>|p.x - centerX| \<le> halfWidth\<close> and
  \<open>|p.y - centerY| \<le> halfHeight\<close> (closed boundary); \<open>intersects(other)\<close> holds iff the
  projections of the two boxes overlap on both axes (closed intervals).
  \<open>contains\<close> reads only the coordinates of its argument, so the payload-free
  \<open>new Point(x, y)\<close> of the lookup functions is passed as the pair of coordinates.
\<close>

definition contains_xy :: "rectangle \<Rightarrow> real \<Rightarrow> real \<Rightarrow> bool" where
  "contains_xy r x y \<longleftrightarrow> \<bar>x - rx r\<bar> \<le> rw r \<and> \<bar>y - ry r\<bar> \<le> rh r"

definition contains :: "rectangle \<Rightarrow> 'd point \<Rightarrow> bool" where
  "contains r p \<longleftrightarrow> contains_xy r (px p) (py p)"

definition intersects :: "rectangle \<Rightarrow> rectangle \<Rightarrow> bool" where
  "intersects a b \<longleftrightarrow>
     rx a - rw a \<le> rx b + rw b \<and> rx b - rw b \<le> rx a + rw a \<and>
     ry a - rh a \<le> ry b + rh b \<and> ry b - rh b \<le> ry a + rh a"

section \<open>Node records and the key-value store\<close>

text \<open>
  A node id is a uuid string; ids are modelled as natural numbers. A value that should be
  an id but is \<open>undefined\<close> or \<open>null\<close> is \<open>None\<close>: no record is ever stored under
  \<open>node:undefined\<close> or \<open>node:null\<close>. The \<open>children\<close> object of a node maps the
  quadrant tags to ids; a tag it lacks reads as \<open>undefined\<close>. A node that was never
  subdivided has no \<open>children\<close> field.
\<close>

record 'd node =
  node_id :: nat
  boundary :: rectangle
  points :: "'d point list"
  divided :: bool
  children :: "(string \<rightharpoonup> nat) option"

datatype key = MetaRoot | NodeKey nat

datatype error = NotFound | TypeError | PointNotFound

text \<open>
  The database holds the record \<open>meta:root\<close> and the records \<open>node:<id>\<close>. The state also
  carries the uuid generator (a counter: every call returns an id never returned before)
  and the sequence of keys written so far, oldest first.
\<close>

record 'd store =
  meta_root :: "nat option"
  nodes :: "nat \<rightharpoonup> 'd node"
  next_uuid :: nat
  writes :: "key list"

definition uuidv4 :: "'d store \<Rightarrow> nat \<times> 'd store" where
  "uuidv4 s = (next_uuid s, s\<lparr>next_uuid := Suc (next_uuid s)\<rparr>)"

definition put_meta :: "nat \<Rightarrow> 'd store \<Rightarrow> 'd store" where
  "put_meta r s = s\<lparr>meta_root := Some r, writes := writes s @ [MetaRoot]\<rparr>"

definition put :: "nat \<Rightarrow> 'd node \<Rightarrow> 'd store \<Rightarrow> 'd store" where
  "put k n s = s\<lparr>nodes := (nodes s)(k \<mapsto> n), writes := writes s @ [NodeKey k]\<rparr>"

definition get_node :: "'d store \<Rightarrow> nat option \<Rightarrow> error + 'd node" where
  "get_node s k =
     (case k of
        None \<Rightarrow> Inl NotFound
      | Some i \<Rightarrow> (case nodes s i of None \<Rightarrow> Inl NotFound | Some n \<Rightarrow> Inr n))"

record tree =
  rootId :: nat
  capacity :: int

definition dirs :: "string list" where
  "dirs = [''ne'', ''nw'', ''se'', ''sw'']"

section \<open>Initialisation\<close>

definition init :: "'d store \<Rightarrow> rectangle \<Rightarrow> int option \<Rightarrow> tree \<times> 'd store" where
  "init s bnd cap =
     (let c = (case cap of None \<Rightarrow> 4 | Some c \<Rightarrow> c) in
      case meta_root s of
        Some r \<Rightarrow> (\<lparr>rootId = r, capacity = c\<rparr>, s)
      | None \<Rightarrow>
          let (r, s1) = uuidv4 s;
              s2 = put_meta r s1;
              s3 = put r \<lparr>node_id = r, boundary = bnd, points = [], divided = False,
                          children = None\<rparr> s2
          in (\<lparr>rootId = r, capacity = c\<rparr>, s3))"

section \<open>Subdivision\<close>

definition includes_chr :: "string \<Rightarrow> char \<Rightarrow> bool" where
  "includes_chr dir c \<longleftrightarrow> c \<in> set dir"

text \<open>
  \<open>x + dx * w / 2\<close> is \<open>x + ((dx * w) / 2)\<close>: a product, a quotient and a sum, each rounded.
\<close>

definition child_boundary :: "rectangle \<Rightarrow> string \<Rightarrow> rectangle" where
  "child_boundary b dir =
     (let dx = (if includes_chr dir CHR ''e'' then 1 else - 1);
          dy = (if includes_chr dir CHR ''s'' then 1 else - 1)
      in \<lparr>rx = fadd (rx b) (fdiv (fmul dx (rw b)) 2),
          ry = fadd (ry b) (fdiv (fmul dy (rh b)) 2),
          rw = fdiv (rw b) 2, rh = fdiv (rh b) 2\<rparr>)"

definition subdivide_step ::
  "'d node \<Rightarrow> (string \<rightharpoonup> nat) \<times> 'd store \<Rightarrow> string \<Rightarrow> (string \<rightharpoonup> nat) \<times> 'd store" where
  "subdivide_step node acc dir =
     (let (ch, s) = acc;
          (i, s1) = uuidv4 s;
          child = \<lparr>node_id = i, boundary = child_boundary (boundary node) dir,
                   points = [], divided = False, children = None\<rparr>
      in (ch(dir \<mapsto> i), put i child s1))"

definition p_subdivide :: "'d store \<Rightarrow> 'd node \<Rightarrow> 'd node \<times> 'd store" where
  "p_subdivide s node =
     (let (ch, s') = foldl (subdivide_step node) (Map.empty, s) dirs;
          node' = node\<lparr>divided := True, children := Some ch\<rparr>
      in (node', put (node_id node') node' s'))"

section \<open>Insertion\<close>

text \<open>
  Names: the methods \<open>_insert\<close>, \<open>_subdivide\<close>, \<open>_query\<close>, \<open>_findPoint\<close>, \<open>_updateNode\<close>,
  \<open>_findNodeId\<close> and \<open>_findNodeIdRecursive\<close> are \<open>p_insert\<close>, \<open>p_subdivide\<close> and so on;
  \<open>insert\<close> and \<open>range\<close> are \<open>insert_qt\<close> and \<open>range_qt\<close>. \<open>this\<close> is the tree handle
  (root id and capacity); the database and the uuid generator are the store, passed in
  and returned. A call returns \<open>None\<close> when it does not terminate, otherwise its result
  or the error it throws, together with the store at that moment.

  \<open>for_insert\<close> is the loop \<open>for (const dir of [...]) if (await body(dir)) return true\<close>
  followed by \<open>return false\<close>; an error thrown by the body ends it.
\<close>

fun for_insert ::
  "(string \<Rightarrow> 's \<Rightarrow> ((error + bool) \<times> 's) option) \<Rightarrow> string list \<Rightarrow> 's \<Rightarrow>
   ((error + bool) \<times> 's) option" where
  "for_insert body [] s = Some (Inr False, s)"
| "for_insert body (dir # ds) s =
     Option.bind (body dir s) (\<lambda>(r, s').
       case r of
         Inl e \<Rightarrow> Some (Inl e, s')
       | Inr accepted \<Rightarrow> if accepted then Some (Inr True, s') else for_insert body ds s')"

lemma for_insert_mono [partial_function_mono]:
  assumes "\<And>dir s. mono_option (\<lambda>f. body f dir s)"
  shows "mono_option (\<lambda>f. for_insert (body f) ds s)"
proof (induction ds arbitrary: s)
  case Nil
  show ?case by (auto intro!: partial_function_mono)
next
  case (Cons d ds)
  have step: "mono_option (\<lambda>f. case r of Inl e \<Rightarrow> Some (Inl e, s')
                | Inr accepted \<Rightarrow> if accepted then Some (Inr True, s')
                                 else for_insert (body f) ds s')" for r s'
    by (cases r) (auto intro!: partial_function_mono Cons.IH assms)
  show ?case
    unfolding for_insert.simps
    by (rule bind_mono) (auto intro!: assms step)
qed

partial_function (option) p_insert ::
  "tree \<Rightarrow> 'd store \<Rightarrow> nat option \<Rightarrow> 'd point \<Rightarrow> ((error + bool) \<times> 'd store) option" where
  "p_insert this s nodeId point =
     (case nodeId of
        None \<Rightarrow> Some (Inl NotFound, s)
      | Some k \<Rightarrow>
     (case nodes s k of
        None \<Rightarrow> Some (Inl NotFound, s)
      | Some node \<Rightarrow>
          if \<not> contains (boundary node) point then Some (Inr False, s)
          else if int (length (points node)) < capacity this \<and> \<not> divided node then
            Some (Inr True, put k (node\<lparr>points := points node @ [point]\<rparr>) s)
          else
            let (node', s') = (if \<not> divided node then p_subdivide s node else (node, s)) in
            (case children node' of
               None \<Rightarrow> Some (Inl TypeError, s')
             | Some ch \<Rightarrow> for_insert (\<lambda>dir s''. p_insert this s'' (ch dir) point) dirs s')))"

definition insert_qt ::
  "tree \<Rightarrow> 'd store \<Rightarrow> real \<Rightarrow> real \<Rightarrow> 'd \<Rightarrow> ((error + unit) \<times> 'd store) option" where
  "insert_qt this s x y d =
     (let point = \<lparr>px = x, py = y, data = d\<rparr> in
      Option.bind (p_insert this s (Some (rootId this)) point) (\<lambda>(r, s').
        case r of Inl e \<Rightarrow> Some (Inl e, s') | Inr accepted \<Rightarrow> Some (Inr (), s')))"

section \<open>Range query\<close>

fun for_query ::
  "(string \<Rightarrow> 'a \<Rightarrow> (error + 'a) option) \<Rightarrow> string list \<Rightarrow> 'a \<Rightarrow> (error + 'a) option" where
  "for_query body [] found = Some (Inr found)"
| "for_query body (dir # ds) found =
     Option.bind (body dir found) (\<lambda>r.
       case r of Inl e \<Rightarrow> Some (Inl e) | Inr found' \<Rightarrow> for_query body ds found')"

lemma for_query_mono [partial_function_mono]:
  assumes "\<And>dir acc. mono_option (\<lambda>f. body f dir acc)"
  shows "mono_option (\<lambda>f. for_query (body f) ds found)"
proof (induction ds arbitrary: found)
  case Nil
  show ?case by (auto intro!: partial_function_mono)
next
  case (Cons d ds)
  have step: "mono_option (\<lambda>f. case r of Inl e \<Rightarrow> Some (Inl e)
                | Inr found' \<Rightarrow> for_query (body f) ds found')" for r
    by (cases r) (auto intro!: partial_function_mono Cons.IH)
  show ?case
    unfolding for_query.simps
    by (rule bind_mono) (auto intro!: assms step)
qed

text \<open>
  \<open>_query\<close> pushes onto the array \<open>found\<close> it was given and returns it; the model returns
  the extended list. It writes nothing, so it is a function of the store alone.
\<close>

partial_function (option) p_query ::
  "'d store \<Rightarrow> nat option \<Rightarrow> rectangle \<Rightarrow> 'd point list \<Rightarrow> (error + 'd point list) option" where
  "p_query s nodeId rng found =
     (case get_node s nodeId of
        Inl e \<Rightarrow> Some (Inl e)
      | Inr node \<Rightarrow>
          if \<not> intersects (boundary node) rng then Some (Inr found)
          else
            let found1 = found @ filter (contains rng) (points node) in
            if divided node then
              (case children node of
                 None \<Rightarrow> Some (Inl TypeError)
               | Some ch \<Rightarrow> for_query (\<lambda>dir acc. p_query s (ch dir) rng acc) dirs found1)
            else Some (Inr found1))"

definition query_rect :: "real \<Rightarrow> real \<Rightarrow> real \<Rightarrow> real \<Rightarrow> rectangle" where
  "query_rect minX minY maxX maxY =
     \<lparr>rx = fdiv (fadd minX maxX) 2, ry = fdiv (fadd minY maxY) 2,
      rw = fdiv (fsub maxX minX) 2, rh = fdiv (fsub maxY minY) 2\<rparr>"

definition range_qt ::
  "tree \<Rightarrow> 'd store \<Rightarrow> real \<Rightarrow> real \<Rightarrow> real \<Rightarrow> real \<Rightarrow> (error + 'd point list) option" where
  "range_qt this s minX minY maxX maxY =
     p_query s (Some (rootId this)) (query_rect minX minY maxX maxY) []"

section \<open>Nearest\<close>



section \<open>Update\<close>

fun for_find ::
  "(string \<Rightarrow> (error + 'a option) option) \<Rightarrow> string list \<Rightarrow> (error + 'a option) option" where
  "for_find body [] = Some (Inr None)"
| "for_find body (dir # ds) =
     Option.bind (body dir) (\<lambda>r.
       case r of
         Inl e \<Rightarrow> Some (Inl e)
       | Inr None \<Rightarrow> for_find body ds
       | Inr (Some v) \<Rightarrow> Some (Inr (Some v)))"

lemma for_find_mono [partial_function_mono]:
  assumes "\<And>dir. mono_option (\<lambda>f. body f dir)"
  shows "mono_option (\<lambda>f. for_find (body f) ds)"
proof (induction ds)
  case Nil
  show ?case by (auto intro!: partial_function_mono)
next
  case (Cons d ds)
  have step: "mono_option (\<lambda>f. case r of Inl e \<Rightarrow> Some (Inl e)
                | Inr None \<Rightarrow> for_find (body f) ds
                | Inr (Some v) \<Rightarrow> Some (Inr (Some v)))" for r
  proof (cases r)
    case (Inl e)
    then show ?thesis by (auto intro!: partial_function_mono)
  next
    case (Inr v)
    then show ?thesis by (cases v) (auto intro!: partial_function_mono Cons.IH)
  qed
  show ?case
    unfolding for_find.simps
    by (rule bind_mono) (auto intro!: assms step)
qed

definition same_xy :: "real \<Rightarrow> real \<Rightarrow> 'd point \<Rightarrow> bool" where
  "same_xy x y p \<longleftrightarrow> px p = x \<and> py p = y"

partial_function (option) p_findPoint ::
  "'d store \<Rightarrow> nat option \<Rightarrow> real \<Rightarrow> real \<Rightarrow> (error + 'd point option) option" where
  "p_findPoint s nodeId x y =
     (case get_node s nodeId of
        Inl e \<Rightarrow> Some (Inl e)
      | Inr node \<Rightarrow>
          if \<not> contains_xy (boundary node) x y then Some (Inr None)
          else
            (case find (same_xy x y) (points node) of
               Some p \<Rightarrow> Some (Inr (Some p))
             | None \<Rightarrow>
                 if divided node then
                   (case children node of
                      None \<Rightarrow> Some (Inl TypeError)
                    | Some ch \<Rightarrow> for_find (\<lambda>dir. p_findPoint s (ch dir) x y) dirs)
                 else Some (Inr None)))"

text \<open>
  \<open>_findNodeIdRecursive(node, x, y)\<close> reads \<open>node.boundary.x\<close>. Its first caller passes a
  node record (\<open>Inl\<close>); its recursive call passes \<open>node.children[dir]\<close>, an id or
  \<open>undefined\<close> (\<open>Inr\<close>). On an id, a string, \<open>node.boundary\<close> is \<open>undefined\<close> and reading
  \<open>.x\<close> of it throws a TypeError; so does \<open>undefined.boundary\<close>.
\<close>

partial_function (option) p_findNodeIdRecursive ::
  "'d node + nat option \<Rightarrow> real \<Rightarrow> real \<Rightarrow> (error + nat option) option" where
  "p_findNodeIdRecursive arg x y =
     (case arg of
        Inr i \<Rightarrow> Some (Inl TypeError)
      | Inl node \<Rightarrow>
          if \<not> contains_xy (boundary node) x y then Some (Inr None)
          else if \<exists>p \<in> set (points node). same_xy x y p then Some (Inr (Some (node_id node)))
          else if divided node then
            (case children node of
               None \<Rightarrow> Some (Inl TypeError)
             | Some ch \<Rightarrow> for_find (\<lambda>dir. p_findNodeIdRecursive (Inr (ch dir)) x y) dirs)
          else Some (Inr None))"

definition p_findNodeId ::
  "tree \<Rightarrow> 'd store \<Rightarrow> real \<Rightarrow> real \<Rightarrow> (error + nat option) option" where
  "p_findNodeId this s x y =
     (case get_node s (Some (rootId this)) of
        Inl e \<Rightarrow> Some (Inl e)
      | Inr node \<Rightarrow> p_findNodeIdRecursive (Inl node) x y)"

fun findIndex :: "('a \<Rightarrow> bool) \<Rightarrow> 'a list \<Rightarrow> nat option" where
  "findIndex P [] = None"
| "findIndex P (a # as) = (if P a then Some 0 else map_option Suc (findIndex P as))"

definition p_updateNode ::
  "tree \<Rightarrow> 'd store \<Rightarrow> real \<Rightarrow> real \<Rightarrow> 'd \<Rightarrow> ((error + unit) \<times> 'd store) option" where
  "p_updateNode this s x y newJsonData =
     (case p_findNodeId this s x y of
        None \<Rightarrow> None
      | Some (Inl e) \<Rightarrow> Some (Inl e, s)
      | Some (Inr None) \<Rightarrow> Some (Inl NotFound, s)
      | Some (Inr (Some nodeId)) \<Rightarrow>
          (case nodes s nodeId of
             None \<Rightarrow> Some (Inl NotFound, s)
           | Some node \<Rightarrow>
               (case findIndex (same_xy x y) (points node) of
                  None \<Rightarrow> Some (Inr (), s)
                | Some pointIndex \<Rightarrow>
                    Some (Inr (),
                      put nodeId
                        (node\<lparr>points := (points node)
                           [pointIndex := (points node ! pointIndex)\<lparr>data := newJsonData\<rparr>]\<rparr>)
                        s))))"

text \<open>
  \<open>update\<close> assigns the new payload to the point object \<open>_findPoint\<close> returned, a copy
  parsed from the stored record: the assignment changes nothing in the store. The store
  changes in \<open>_updateNode\<close> only.
\<close>

definition update ::
  "tree \<Rightarrow> 'd store \<Rightarrow> real \<Rightarrow> real \<Rightarrow> 'd \<Rightarrow> ((error + bool) \<times> 'd store) option" where
  "update this s x y newJsonData =
     (case p_findPoint s (Some (rootId this)) x y of
        None \<Rightarrow> None
      | Some (Inl e) \<Rightarrow> Some (Inl e, s)
      | Some (Inr None) \<Rightarrow> Some (Inl PointNotFound, s)
      | Some (Inr (Some point)) \<Rightarrow>
          (case p_updateNode this s (px point) (py point) newJsonData of
             None \<Rightarrow> None
           | Some (Inl e, s') \<Rightarrow> Some (Inl e, s')
           | Some (Inr u, s') \<Rightarrow> Some (Inr True, s')))"

declare p_insert.simps [code] p_query.simps [code] p_findPoint.simps [code]
  p_findNodeIdRecursive.simps [code]

section \<open>The result of a subdivision, written out\<close>

definition child_node :: "rectangle \<Rightarrow> nat \<Rightarrow> string \<Rightarrow> 'd node" where
  "child_node b i dir = \<lparr>node_id = i, boundary = child_boundary b dir, points = [], divided = False, children = None\<rparr>"

lemma p_subdivide_eq:
  "p_subdivide s node =
     (node\<lparr>divided := True,
            children := Some [''ne'' \<mapsto> next_uuid s, ''nw'' \<mapsto> Suc (next_uuid s),
                              ''se'' \<mapsto> Suc (Suc (next_uuid s)), ''sw'' \<mapsto> Suc (Suc (Suc (next_uuid s)))]\<rparr>,
      s\<lparr>nodes := (nodes s)
            (next_uuid s \<mapsto> child_node (boundary node) (next_uuid s) ''ne'',
             Suc (next_uuid s) \<mapsto> child_node (boundary node) (Suc (next_uuid s)) ''nw'',
             Suc (Suc (next_uuid s)) \<mapsto> child_node (boundary node) (Suc (Suc (next_uuid s))) ''se'',
             Suc (Suc (Suc (next_uuid s))) \<mapsto> child_node (boundary node) (Suc (Suc (Suc (next_uuid s)))) ''sw'',
             node_id node \<mapsto> node\<lparr>divided := True,
               children := Some [''ne'' \<mapsto> next_uuid s, ''nw'' \<mapsto> Suc (next_uuid s),
                                 ''se'' \<mapsto> Suc (Suc (next_uuid s)), ''sw'' \<mapsto> Suc (Suc (Suc (next_uuid s)))]\<rparr>),
         next_uuid := next_uuid s + 4,
         writes := writes s @ [NodeKey (next_uuid s), NodeKey (Suc (next_uuid s)),
                               NodeKey (Suc (Suc (next_uuid s))), NodeKey (Suc (Suc (Suc (next_uuid s)))),
                               NodeKey (node_id node)]\<rparr>)"
  by (simp add: p_subdivide_def dirs_def subdivide_step_def uuidv4_def put_def child_node_def
        Let_def eval_nat_numeral)

section \<open>Stores that hold a tree\<close>

text \<open>
  The node records reachable from a root form a tree when the store holds, under the
  root's id, a record with that id, and under each child id of a divided node again such
  a tree. \<open>rep s t\<close> says that the store \<open>s\<close> holds the tree \<open>t\<close>; \<open>t\<close> lists, for each
  node, its id, boundary and points, and for a divided node the four subtrees in the
  order ne, nw, se, sw.
\<close>

datatype 'd qtree =
  QLeaf nat rectangle "'d point list"
| QNode nat rectangle "'d point list" "'d qtree" "'d qtree" "'d qtree" "'d qtree"

fun root :: "'d qtree \<Rightarrow> nat" where
  "root (QLeaf k b ps) = k"
| "root (QNode k b ps t1 t2 t3 t4) = k"

fun bnd :: "'d qtree \<Rightarrow> rectangle" where
  "bnd (QLeaf k b ps) = b"
| "bnd (QNode k b ps t1 t2 t3 t4) = b"

fun rep :: "'d store \<Rightarrow> 'd qtree \<Rightarrow> bool" where
  "rep s (QLeaf k b ps) \<longleftrightarrow>
     nodes s k = Some \<lparr>node_id = k, boundary = b, points = ps, divided = False, children = None\<rparr>"
| "rep s (QNode k b ps t1 t2 t3 t4) \<longleftrightarrow>
     (\<exists>ch. nodes s k = Some \<lparr>node_id = k, boundary = b, points = ps, divided = True,
                             children = Some ch\<rparr> \<and>
        ch ''ne'' = Some (root t1) \<and> ch ''nw'' = Some (root t2) \<and>
        ch ''se'' = Some (root t3) \<and> ch ''sw'' = Some (root t4)) \<and>
     rep s t1 \<and> rep s t2 \<and> rep s t3 \<and> rep s t4"

fun query_t :: "rectangle \<Rightarrow> 'd qtree \<Rightarrow> 'd point list" where
  "query_t r (QLeaf k b ps) = (if intersects b r then filter (contains r) ps else [])"
| "query_t r (QNode k b ps t1 t2 t3 t4) =
     (if intersects b r
      then filter (contains r) ps @ query_t r t1 @ query_t r t2 @ query_t r t3 @ query_t r t4
      else [])"

lemma p_query_refines:
  "rep s t \<Longrightarrow> p_query s (Some (root t)) r found = Some (Inr (found @ query_t r t))"
proof (induction t arbitrary: found)
  case (QLeaf k b ps)
  then show ?case
    by (subst p_query.simps) (simp add: get_node_def)
next
  case (QNode k b ps t1 t2 t3 t4)
  from QNode.prems obtain ch where
    n: "nodes s k = Some \<lparr>node_id = k, boundary = b, points = ps, divided = True, children = Some ch\<rparr>"
    and ch: "ch ''ne'' = Some (root t1)" "ch ''nw'' = Some (root t2)"
            "ch ''se'' = Some (root t3)" "ch ''sw'' = Some (root t4)"
    and r: "rep s t1" "rep s t2" "rep s t3" "rep s t4"
    by auto
  show ?case
    by (subst p_query.simps)
       (simp add: get_node_def n ch dirs_def QNode.IH(1)[OF r(1)] QNode.IH(2)[OF r(2)]
          QNode.IH(3)[OF r(3)] QNode.IH(4)[OF r(4)])
qed

fun find_t :: "real \<Rightarrow> real \<Rightarrow> 'd qtree \<Rightarrow> 'd point option" where
  "find_t x y (QLeaf k b ps) = (if contains_xy b x y then find (same_xy x y) ps else None)"
| "find_t x y (QNode k b ps t1 t2 t3 t4) =
     (if contains_xy b x y then
        (case find (same_xy x y) ps of
           Some p \<Rightarrow> Some p
         | None \<Rightarrow>
            (case find_t x y t1 of Some p \<Rightarrow> Some p | None \<Rightarrow>
            (case find_t x y t2 of Some p \<Rightarrow> Some p | None \<Rightarrow>
            (case find_t x y t3 of Some p \<Rightarrow> Some p | None \<Rightarrow> find_t x y t4))))
      else None)"

lemma p_findPoint_refines:
  "rep s t \<Longrightarrow> p_findPoint s (Some (root t)) x y = Some (Inr (find_t x y t))"
proof (induction t)
  case (QLeaf k b ps)
  then show ?case
    by (subst p_findPoint.simps) (simp add: get_node_def split: option.split)
next
  case (QNode k b ps t1 t2 t3 t4)
  from QNode.prems obtain ch where
    n: "nodes s k = Some \<lparr>node_id = k, boundary = b, points = ps, divided = True, children = Some ch\<rparr>"
    and ch: "ch ''ne'' = Some (root t1)" "ch ''nw'' = Some (root t2)"
            "ch ''se'' = Some (root t3)" "ch ''sw'' = Some (root t4)"
    and r: "rep s t1" "rep s t2" "rep s t3" "rep s t4"
    by auto
  show ?case
    by (subst p_findPoint.simps)
       (simp add: get_node_def n ch dirs_def QNode.IH(1)[OF r(1)] QNode.IH(2)[OF r(2)]
          QNode.IH(3)[OF r(3)] QNode.IH(4)[OF r(4)] split: option.split)
qed

section \<open>Rounding, evaluated\<close>

text \<open>
  \<open>fl_at_q\<close>: where \<open>|x|\<close> lies in the binade whose doubles are the multiples of \<open>q\<close> (or
  below the least normal number, with \<open>q = 2^-1074\<close>), \<open>fl x\<close> is \<open>x / q\<close> rounded to an
  integer, ties to even, times \<open>q\<close>. \<open>fl_exact\<close>: a double is its own rounding.
\<close>

lemmas float_ops = fadd_def fsub_def fmul_def fdiv_def

lemma rne_of_int [simp]: "rne (of_int n) = n"
  by (simp add: rne_def)

lemma fl_at:
  assumes lt: "\<bar>x\<bar> * 2 ^ 1074 < 2 ^ (53 + s)"
    and ge: "s = 0 \<or> 2 ^ (52 + s) \<le> \<bar>x\<bar> * 2 ^ 1074"
  shows "fl x = of_int (rne (x / (2 ^ s / 2 ^ 1074))) * (2 ^ s / 2 ^ 1074)"
proof -
  let ?k = "\<lfloor>\<bar>x\<bar> * 2 ^ 1074\<rfloor>"
  have "real_of_int ?k \<le> \<bar>x\<bar> * 2 ^ 1074" by simp
  also note lt
  finally have "real_of_int ?k < real_of_int (2 ^ (53 + s))" by simp
  then have klt: "?k < 2 ^ (53 + s)" by (simp only: of_int_less_iff)
  then have le: "bitlen ?k \<le> 53 + int s"
    by (simp add: bitlen_le_iff_power nat_add_distrib)
  have "nat (bitlen ?k - 53) = s"
  proof (cases "s = 0")
    case True
    with le show ?thesis by simp
  next
    case False
    with ge have "real_of_int (2 ^ (52 + s)) \<le> \<bar>x\<bar> * 2 ^ 1074" by simp
    then have "2 ^ (52 + s) \<le> ?k" by (simp only: le_floor_iff)
    then have "53 + int s \<le> bitlen ?k"
      by (simp add: bitlen_ge_iff_power nat_add_distrib)
    with le show ?thesis by simp
  qed
  then show ?thesis by (simp add: fl_def Let_def)
qed

lemma fl_at_q:
  assumes q: "q = 2 powi j" and j: "- 1074 \<le> j"
    and lt: "\<bar>x\<bar> < 2 ^ 53 * q" and ge: "j = - 1074 \<or> 2 ^ 52 * q \<le> \<bar>x\<bar>"
  shows "fl x = of_int (rne (x / q)) * q"
proof -
  define s where "s = nat (j + 1074)"
  from j have js: "j = int s - 1074" by (simp add: s_def)
  have qs: "q = 2 ^ s / 2 ^ 1074"
    unfolding q js by (simp add: power_int_diff)
  have pos: "(0::real) < 2 ^ 1074" by simp
  have a: "\<bar>x\<bar> * 2 ^ 1074 < 2 ^ (53 + s)"
  proof -
    from lt have "\<bar>x\<bar> * 2 ^ 1074 < 2 ^ 53 * q * 2 ^ 1074" using pos by (simp only: mult_less_cancel_right_pos)
    also have "2 ^ 53 * q * 2 ^ 1074 = 2 ^ (53 + s)" by (simp add: qs power_add)
    finally show ?thesis .
  qed
  have b: "s = 0 \<or> 2 ^ (52 + s) \<le> \<bar>x\<bar> * 2 ^ 1074"
  proof (cases "j = - 1074")
    case True
    then show ?thesis by (simp add: s_def)
  next
    case False
    with ge have "2 ^ 52 * q \<le> \<bar>x\<bar>" by simp
    then have "2 ^ 52 * q * 2 ^ 1074 \<le> \<bar>x\<bar> * 2 ^ 1074" using pos by (simp only: mult_le_cancel_right_pos)
    moreover have "2 ^ 52 * q * 2 ^ 1074 = 2 ^ (52 + s)" by (simp add: qs power_add)
    ultimately show ?thesis by simp
  qed
  from fl_at[OF a b] show ?thesis by (simp only: qs)
qed

lemma rne_zero [simp]: "rne 0 = 0"
  using rne_of_int[of 0] by simp

lemma fl_zero [simp]: "fl 0 = 0"
  by (subst fl_at[where s = 0]) simp_all

lemma fl_exact:
  assumes m: "\<bar>m\<bar> < 2 ^ 53" and j: "- 1074 \<le> j"
  shows "fl (of_int m * 2 powi j) = of_int m * 2 powi j"
proof (cases "m = 0")
  case True
  then show ?thesis by simp
next
  case False
  define b where "b = bitlen \<bar>m\<bar>"
  define j' where "j' = max (j + b - 53) (- 1074)"
  let ?x = "real_of_int m * 2 powi j"
  let ?q = "(2::real) powi j'"
  from False have mpos: "0 < \<bar>m\<bar>" by simp
  from m have b53: "b \<le> 53" by (simp add: b_def bitlen_le_iff_power)
  from mpos have b1: "1 \<le> b" by (simp add: b_def bitlen_ge_iff_power)
  from bitlen_bounds[OF mpos] have lo: "2 ^ nat (b - 1) \<le> \<bar>m\<bar>" and hi: "\<bar>m\<bar> < 2 ^ nat b"
    by (simp_all add: b_def)
  have j'le: "j' \<le> j" using b53 j by (simp add: j'_def)
  have j'ge: "- 1074 \<le> j'" by (simp add: j'_def)
  have absx: "\<bar>?x\<bar> = real_of_int \<bar>m\<bar> * 2 powi j" by (simp add: abs_mult)
  have hi': "real_of_int \<bar>m\<bar> < 2 powi b"
  proof -
    from hi have "real_of_int \<bar>m\<bar> < real_of_int (2 ^ nat b)" by (simp only: of_int_less_iff)
    with b1 show ?thesis by (simp add: power_int_def)
  qed
  have lo': "2 powi (b - 1) \<le> real_of_int \<bar>m\<bar>"
  proof -
    from lo have "real_of_int (2 ^ nat (b - 1)) \<le> real_of_int \<bar>m\<bar>" by (simp only: of_int_le_iff)
    with b1 show ?thesis by (simp add: power_int_def)
  qed
  have lt: "\<bar>?x\<bar> < 2 ^ 53 * ?q"
  proof -
    have "\<bar>?x\<bar> < 2 powi b * 2 powi j" unfolding absx using hi' by simp
    also have "\<dots> = 2 powi (b + j)" by (simp add: power_int_add)
    also have "\<dots> \<le> 2 powi (53 + j')" by (rule power_int_increasing) (simp_all add: j'_def)
    also have "\<dots> = 2 ^ 53 * ?q" by (simp add: power_int_add)
    finally show ?thesis .
  qed
  have ge: "j' = - 1074 \<or> 2 ^ 52 * ?q \<le> \<bar>?x\<bar>"
  proof (cases "j' = - 1074")
    case True
    then show ?thesis by simp
  next
    case False
    then have j'eq: "j' = j + b - 53" by (simp add: j'_def max_def split: if_splits)
    have "2 ^ 52 * ?q = 2 powi (52 + j')" by (simp add: power_int_add)
    also have "\<dots> = 2 powi (b - 1) * 2 powi j" by (simp add: j'eq flip: power_int_add) (simp add: algebra_simps)
    also have "\<dots> \<le> \<bar>?x\<bar>" unfolding absx using lo' by simp
    finally show ?thesis by simp
  qed
  have quot: "?x / ?q = real_of_int (m * 2 ^ nat (j - j'))"
  proof -
    have "?x / ?q = real_of_int m * 2 powi (j - j')" by (simp add: power_int_diff)
    also have "2 powi (j - j') = (2::real) ^ nat (j - j')" using j'le by (simp add: power_int_def)
    finally show ?thesis by simp
  qed
  have "fl ?x = of_int (rne (?x / ?q)) * ?q"
    by (rule fl_at_q[OF refl j'ge lt ge])
  also have "\<dots> = ?x / ?q * ?q" unfolding quot by (simp only: rne_of_int)
  also have "\<dots> = ?x" by simp
  finally show ?thesis .
qed

lemma fl_of_int:
  assumes "\<bar>n\<bar> \<le> 2 ^ 53"
  shows "fl (of_int n) = of_int n"
proof (cases "\<bar>n\<bar> = 2 ^ 53")
  case True
  then have "n = 2 ^ 53 \<or> n = - (2 ^ 53)" by linarith
  then have "real_of_int n = real_of_int (n div 2) * 2 powi 1" by auto
  moreover from True have "\<bar>n div 2\<bar> < 2 ^ 53" by auto
  ultimately show ?thesis using fl_exact[of "n div 2" 1] by simp
next
  case False
  with assms have "\<bar>n\<bar> < 2 ^ 53" by simp
  from fl_exact[OF this, of 0] show ?thesis by simp
qed

lemma fl_numeral:
  "numeral w \<le> (9007199254740992::int) \<Longrightarrow> fl (numeral w) = numeral w"
  "numeral w \<le> (9007199254740992::int) \<Longrightarrow> fl (- numeral w) = - numeral w"
  "fl 1 = 1" "fl (- 1) = - 1"
  using fl_of_int[of "numeral w"] fl_of_int[of "- numeral w"] fl_of_int[of 1] fl_of_int[of "- 1"]
  by simp_all


text \<open>
  \<open>fl_le_neg\<close>: rounding does not carry a number at or below \<open>-c * 2^-1074\<close> above it
  (\<open>c\<close> a positive integer up to \<open>2^52\<close>). So a difference of \<open>-2^-1073\<close> or less, halved,
  is still negative after both roundings: \<open>half_extent_negative\<close>.
\<close>

lemma rne_le: "v \<le> of_int n \<Longrightarrow> rne v \<le> n"
proof -
  assume v: "v \<le> of_int n"
  have f: "\<lfloor>v\<rfloor> \<le> n" using v by (simp add: floor_le_iff)
  have g: "\<lfloor>v\<rfloor> + 1 \<le> n" if "1 / 2 \<le> v - of_int \<lfloor>v\<rfloor>"
  proof -
    from that v have "of_int \<lfloor>v\<rfloor> < (of_int n :: real)" by linarith
    then have "\<lfloor>v\<rfloor> < n" by (simp only: of_int_less_iff)
    then show ?thesis by simp
  qed
  show ?thesis
    using f g by (auto simp: rne_def Let_def)
qed

lemma fl_le_neg:
  assumes c0: "0 < c" and c52: "c \<le> 2 ^ 52" and x: "x \<le> - (of_int c / 2 ^ 1074)"
  shows "fl x \<le> - (of_int c / 2 ^ 1074)"
proof -
  define k where "k = \<lfloor>\<bar>x\<bar> * 2 ^ 1074\<rfloor>"
  define s where "s = nat (bitlen k - 53)"
  define q :: real where "q = 2 ^ s / 2 ^ 1074"
  have flx: "fl x = of_int (rne (x / q)) * q"
    by (simp add: fl_def Let_def k_def s_def q_def)
  have qpos: "0 < q" by (simp add: q_def)
  have "0 < real_of_int c / 2 ^ 1074" using c0 by simp
  with x have xneg: "x < 0" by linarith
  have xs: "x * 2 ^ 1074 \<le> - of_int c"
  proof -
    from x have "x * 2 ^ 1074 \<le> - (of_int c / 2 ^ 1074) * 2 ^ 1074"
      by (simp only: mult_le_cancel_right_pos zero_less_power zero_less_numeral)
    then show ?thesis by simp
  qed
  have quot: "x / q = x * 2 ^ 1074 / 2 ^ s" by (simp add: q_def)
  show ?thesis
  proof (cases "s = 0")
    case True
    with xs have "x / q \<le> of_int (- c)" by (simp add: quot)
    from rne_le[OF this] have "real_of_int (rne (x / q)) \<le> real_of_int (- c)"
      by (simp only: of_int_le_iff)
    then have "real_of_int (rne (x / q)) * q \<le> real_of_int (- c) * q"
      using qpos by (simp only: mult_le_cancel_right_pos)
    with True show ?thesis by (simp add: flx q_def)
  next
    case False
    then have "53 + int s \<le> bitlen k" by (simp add: s_def)
    then have "2 ^ (52 + s) \<le> k" by (simp add: bitlen_ge_iff_power nat_add_distrib)
    then have "real_of_int (2 ^ (52 + s)) \<le> \<bar>x\<bar> * 2 ^ 1074"
      unfolding k_def by (simp only: le_floor_iff)
    with xneg have "x * 2 ^ 1074 \<le> - (2 ^ 52 * 2 ^ s)" by (simp add: power_add)
    then have "x * 2 ^ 1074 / 2 ^ s \<le> - (2 ^ 52 * 2 ^ s) / 2 ^ s"
      by (simp only: divide_le_cancel zero_less_power zero_less_numeral) simp
    then have "x / q \<le> of_int (- (2 ^ 52))" by (simp add: quot)
    from rne_le[OF this] have "real_of_int (rne (x / q)) \<le> real_of_int (- (2 ^ 52))"
      by (simp only: of_int_le_iff)
    then have "real_of_int (rne (x / q)) * q \<le> real_of_int (- (2 ^ 52)) * q"
      using qpos by (simp only: mult_le_cancel_right_pos)
    then have a: "fl x \<le> - (2 ^ 52 * 2 ^ s / 2 ^ 1074)" by (simp add: flx q_def)
    have "real_of_int c \<le> 2 ^ 52" using c52 by (metis of_int_le_iff of_int_numeral of_int_power)
    also have "(2::real) ^ 52 \<le> 2 ^ 52 * 2 ^ s" by simp
    finally have "real_of_int c / 2 ^ 1074 \<le> 2 ^ 52 * 2 ^ s / 2 ^ 1074"
      by (simp only: divide_le_cancel zero_less_power zero_less_numeral) simp
    with a show ?thesis by linarith
  qed
qed

lemma half_extent_negative:
  assumes "b - a \<le> - (2 / 2 ^ 1074)"
  shows "fdiv (fsub b a) 2 < 0"
proof -
  from fl_le_neg[of 2 "b - a"] assms have "fl (b - a) \<le> - (2 / 2 ^ 1074)" by simp
  then have "fl (b - a) / 2 \<le> - (of_int 1 / 2 ^ 1074)" by simp
  from fl_le_neg[OF _ _ this] have "fl (fl (b - a) / 2) \<le> - (1 / 2 ^ 1074)" by simp
  moreover have "- (1 / 2 ^ 1074) < (0::real)" by simp
  ultimately show ?thesis unfolding fdiv_def fsub_def by linarith
qed


section \<open>Auxiliary facts\<close>

lemma node_eq_iff:
  "n = \<lparr>node_id = k, boundary = b, points = ps, divided = d, children = c\<rparr> \<longleftrightarrow>
   node_id n = k \<and> boundary n = b \<and> points n = ps \<and> divided n = d \<and> children n = c"
  by (cases n) auto







lemma child_boundary_simps:
  "child_boundary b ''ne'' =
     \<lparr>rx = fadd (rx b) (fdiv (fmul 1 (rw b)) 2), ry = fadd (ry b) (fdiv (fmul (- 1) (rh b)) 2),
      rw = fdiv (rw b) 2, rh = fdiv (rh b) 2\<rparr>"
  "child_boundary b ''nw'' =
     \<lparr>rx = fadd (rx b) (fdiv (fmul (- 1) (rw b)) 2), ry = fadd (ry b) (fdiv (fmul (- 1) (rh b)) 2),
      rw = fdiv (rw b) 2, rh = fdiv (rh b) 2\<rparr>"
  "child_boundary b ''se'' =
     \<lparr>rx = fadd (rx b) (fdiv (fmul 1 (rw b)) 2), ry = fadd (ry b) (fdiv (fmul 1 (rh b)) 2),
      rw = fdiv (rw b) 2, rh = fdiv (rh b) 2\<rparr>"
  "child_boundary b ''sw'' =
     \<lparr>rx = fadd (rx b) (fdiv (fmul (- 1) (rw b)) 2), ry = fadd (ry b) (fdiv (fmul 1 (rh b)) 2),
      rw = fdiv (rw b) 2, rh = fdiv (rh b) 2\<rparr>"
  by (simp_all add: child_boundary_def includes_chr_def)


fun all_points :: "'d qtree \<Rightarrow> 'd point list" where
  "all_points (QLeaf k b ps) = ps"
| "all_points (QNode k b ps t1 t2 t3 t4) =
     ps @ all_points t1 @ all_points t2 @ all_points t3 @ all_points t4"

lemma find_none: "\<forall>p \<in> set ps. \<not> P p \<Longrightarrow> find P ps = None"
  by (simp add: find_None_iff)

lemma find_t_None:
  "\<forall>p \<in> set (all_points t). \<not> same_xy x y p \<Longrightarrow> find_t x y t = None"
  by (induction t) (simp_all add: find_none ball_Un)

lemma query_t_inverted:
  "rw r < 0 \<or> rh r < 0 \<Longrightarrow> query_t r t = []"
proof -
  assume inv: "rw r < 0 \<or> rh r < 0"
  have none: "filter (contains r) ps = []" for ps :: "'a point list"
    using inv by (auto simp: filter_empty_conv contains_def contains_xy_def)
  show ?thesis by (induction t) (simp_all add: none)
qed





lemma init_existing:
  "meta_root s = Some r \<Longrightarrow>
   init s b cap = (\<lparr>rootId = r, capacity = (case cap of None \<Rightarrow> 4 | Some c \<Rightarrow> c)\<rparr>, s)"
  by (simp add: init_def)

lemma init_fresh:
  "meta_root s = None \<Longrightarrow>
   init s b cap =
     (\<lparr>rootId = next_uuid s, capacity = (case cap of None \<Rightarrow> 4 | Some c \<Rightarrow> c)\<rparr>,
      s\<lparr>meta_root := Some (next_uuid s),
        nodes := (nodes s)(next_uuid s \<mapsto>
           \<lparr>node_id = next_uuid s, boundary = b, points = [], divided = False,
            children = None\<rparr>),
        next_uuid := Suc (next_uuid s),
        writes := writes s @ [MetaRoot, NodeKey (next_uuid s)]\<rparr>)"
  by (simp add: init_def uuidv4_def put_meta_def put_def)

lemma p_insert_outside:
  "nodes s k = Some n \<Longrightarrow> \<not> contains (boundary n) p \<Longrightarrow>
   p_insert this s (Some k) p = Some (Inr False, s)"
  by (subst p_insert.simps) simp

text \<open>
  \<open>update\<close> on a point that \<open>_findPoint\<close> finds below a divided root, and not in the
  root's own list, always ends in the TypeError of \<open>_findNodeIdRecursive\<close>.
\<close>

lemma find_t_Some:
  "find_t x y t = Some q \<Longrightarrow> contains_xy (bnd t) x y \<and> px q = x \<and> py q = y"
proof (cases t)
  case (QLeaf k b ps)
  assume "find_t x y t = Some q"
  with QLeaf show ?thesis
    by (auto simp: find_Some_iff same_xy_def split: if_splits)
next
  case (QNode k b ps t1 t2 t3 t4)
  assume f: "find_t x y t = Some q"
  with QNode have c: "contains_xy b x y" by (auto split: if_splits)
  have sub: "find_t x y u = Some q \<Longrightarrow> px q = x \<and> py q = y" for u :: "'a qtree"
    by (induction u) (auto simp: find_Some_iff same_xy_def split: if_splits option.splits)
  from sub[OF f] c QNode show ?thesis by simp
qed

lemma update_descendant_fails:
  assumes r: "rep s (QNode k b ps t1 t2 t3 t4)" and rt: "k = rootId this"
    and own: "\<forall>p \<in> set ps. \<not> same_xy x y p"
    and found: "find_t x y (QNode k b ps t1 t2 t3 t4) = Some q"
  shows "update this s x y d = Some (Inl TypeError, s)"
proof -
  from r obtain ch where
    n: "nodes s k = Some \<lparr>node_id = k, boundary = b, points = ps, divided = True,
                          children = Some ch\<rparr>"
    by auto
  from find_t_Some[OF found] have c: "contains_xy b x y" and q: "px q = x" "py q = y"
    by simp_all
  have fp: "p_findPoint s (Some (rootId this)) x y = Some (Inr (Some q))"
    using p_findPoint_refines[OF r, of x y] found rt by simp
  have fid: "p_findNodeId this s x y = Some (Inl TypeError)"
    using n rt c own
    by (simp add: p_findNodeId_def get_node_def p_findNodeIdRecursive.simps dirs_def)
  show ?thesis by (simp add: update_def fp q p_updateNode_def fid)
qed

section \<open>The node-state invariant\<close>

text \<open>
  \<open>ids_ok\<close>: every record is stored under its own id, and the uuid generator has issued
  all ids of the store. \<open>node_inv\<close>: an undivided node has no \<open>children\<close> field and at
  most \<open>capacity\<close> points. \<open>node_step\<close> lists what one insertion of the point \<open>p\<close> can
  do to a record: nothing, append \<open>p\<close> (an undivided node with room that contains \<open>p\<close>, and
  the insertion then reports success), or subdivide it (an undivided node without room
  that contains \<open>p\<close>).
\<close>

definition ids_ok :: "'d store \<Rightarrow> bool" where
  "ids_ok s \<longleftrightarrow> (\<forall>k n. nodes s k = Some n \<longrightarrow> node_id n = k \<and> k < next_uuid s)"

definition node_inv :: "int \<Rightarrow> 'd store \<Rightarrow> bool" where
  "node_inv cap s \<longleftrightarrow>
     (\<forall>k n. nodes s k = Some n \<longrightarrow> \<not> divided n \<longrightarrow>
        children n = None \<and> int (length (points n)) \<le> cap)"

definition divided_kept :: "'d store \<Rightarrow> 'd store \<Rightarrow> bool" where
  "divided_kept s s' \<longleftrightarrow>
     (\<forall>k n. nodes s k = Some n \<longrightarrow> divided n \<longrightarrow> (\<exists>n'. nodes s' k = Some n' \<and> divided n'))"

definition node_step :: "int \<Rightarrow> 'd point \<Rightarrow> error + bool \<Rightarrow> 'd node \<Rightarrow> 'd node \<Rightarrow> bool" where
  "node_step cap p r n n' \<longleftrightarrow>
     n' = n \<or>
     (r = Inr True \<and> \<not> divided n \<and> int (length (points n)) < cap \<and>
      contains (boundary n) p \<and> n' = n\<lparr>points := points n @ [p]\<rparr>) \<or>
     (\<not> divided n \<and> \<not> int (length (points n)) < cap \<and> contains (boundary n) p \<and>
      (\<exists>ch. n' = n\<lparr>divided := True, children := Some ch\<rparr>))"

definition store_step :: "int \<Rightarrow> 'd point \<Rightarrow> error + bool \<Rightarrow> 'd store \<Rightarrow> 'd store \<Rightarrow> bool" where
  "store_step cap p r s s' \<longleftrightarrow>
     next_uuid s \<le> next_uuid s' \<and>
     (\<forall>k n. nodes s k = Some n \<longrightarrow> (\<exists>n'. nodes s' k = Some n' \<and> node_step cap p r n n'))"

definition ins_post :: "tree \<Rightarrow> 'd point \<Rightarrow> error + bool \<Rightarrow> 'd store \<Rightarrow> 'd store \<Rightarrow> bool" where
  "ins_post this p r s s' \<longleftrightarrow>
     ids_ok s' \<and> store_step (capacity this) p r s s' \<and>
     (node_inv (capacity this) s \<longrightarrow> node_inv (capacity this) s')"

lemma node_step_divided: "node_step cap p r n n' \<Longrightarrow> divided n \<Longrightarrow> n' = n"
  by (auto simp: node_step_def)

lemma node_step_trans:
  assumes "node_step cap p (Inr False) n n1" and "node_step cap p r n1 n2"
  shows "node_step cap p r n n2"
proof -
  from assms(1) consider (same) "n1 = n"
    | (sub) ch where "\<not> divided n" "\<not> int (length (points n)) < cap" "contains (boundary n) p"
        "n1 = n\<lparr>divided := True, children := Some ch\<rparr>"
    by (auto simp: node_step_def)
  then show ?thesis
  proof cases
    case same
    with assms(2) show ?thesis by simp
  next
    case sub
    then have "divided n1" by simp
    from node_step_divided[OF assms(2) this] sub show ?thesis
      by (auto simp: node_step_def)
  qed
qed

lemma store_step_refl: "store_step cap p r s s"
  by (simp add: store_step_def node_step_def)

lemma store_step_trans:
  assumes "store_step cap p (Inr False) s s1" and "store_step cap p r s1 s2"
  shows "store_step cap p r s s2"
  unfolding store_step_def
proof (intro conjI allI impI)
  from assms show "next_uuid s \<le> next_uuid s2" by (auto simp: store_step_def)
next
  fix k n assume "nodes s k = Some n"
  with assms(1) obtain n1 where n1: "nodes s1 k = Some n1" "node_step cap p (Inr False) n n1"
    by (auto simp: store_step_def)
  with assms(2) obtain n2 where n2: "nodes s2 k = Some n2" "node_step cap p r n1 n2"
    by (auto simp: store_step_def)
  from n2(1) node_step_trans[OF n1(2) n2(2)]
  show "\<exists>n'. nodes s2 k = Some n' \<and> node_step cap p r n n'" by blast
qed

lemma ins_post_refl: "ids_ok s \<Longrightarrow> ins_post this p r s s"
  by (simp add: ins_post_def store_step_refl)

lemma ins_post_trans:
  "ins_post this p (Inr False) s s1 \<Longrightarrow> ins_post this p r s1 s2 \<Longrightarrow> ins_post this p r s s2"
  unfolding ins_post_def using store_step_trans by blast

lemma for_insert_post:
  assumes body: "\<And>d s r s'. body d s = Some (r, s') \<Longrightarrow> ids_ok s \<Longrightarrow> ins_post this p r s s'"
  shows "for_insert body ds s = Some (r, s') \<Longrightarrow> ids_ok s \<Longrightarrow> ins_post this p r s s'"
proof (induction ds arbitrary: s)
  case Nil
  then show ?case by (simp add: ins_post_refl)
next
  case (Cons d ds)
  from Cons.prems(1) obtain r1 s1 where b: "body d s = Some (r1, s1)"
    by (cases "body d s") auto
  note p1 = body[OF b Cons.prems(2)]
  show ?case
  proof (cases r1)
    case (Inl e)
    with Cons.prems(1) b p1 show ?thesis by simp
  next
    case (Inr accepted)
    show ?thesis
    proof (cases accepted)
      case True
      with Inr Cons.prems(1) b p1 show ?thesis by simp
    next
      case False
      with Inr Cons.prems(1) b have rest: "for_insert body ds s1 = Some (r, s')" by simp
      from p1 have "ids_ok s1" by (simp add: ins_post_def)
      from Cons.IH[OF rest this] p1 Inr False show ?thesis
        by (auto intro: ins_post_trans)
    qed
  qed
qed

lemma push_post:
  assumes ids: "ids_ok s" and n: "nodes s k = Some n" and u: "\<not> divided n"
    and room: "int (length (points n)) < capacity this" and c: "contains (boundary n) p"
  shows "ins_post this p (Inr True) s (put k (n\<lparr>points := points n @ [p]\<rparr>) s)"
proof -
  let ?s' = "put k (n\<lparr>points := points n @ [p]\<rparr>) s"
  have a: "ids_ok ?s'" using ids n by (auto simp: ids_ok_def put_def)
  have b: "store_step (capacity this) p (Inr True) s ?s'"
    using n u room c by (auto simp: store_step_def node_step_def put_def)
  have c': "node_inv (capacity this) ?s'" if "node_inv (capacity this) s"
    using that n u room by (auto simp: node_inv_def put_def)
  from a b c' show ?thesis by (simp add: ins_post_def)
qed

lemma subdivide_post:
  assumes ids: "ids_ok s" and n: "nodes s k = Some n" and u: "\<not> divided n"
    and full: "\<not> int (length (points n)) < capacity this" and c: "contains (boundary n) p"
  shows "ins_post this p (Inr False) s (snd (p_subdivide s n))"
proof -
  let ?s1 = "snd (p_subdivide s n)"
  from ids n have k: "node_id n = k" "k < next_uuid s" by (auto simp: ids_ok_def)
  have lt: "j < next_uuid s" if "nodes s j = Some m" for j m
    using ids that by (auto simp: ids_ok_def)
  have lt4: "j < next_uuid s + 4" if "nodes s j = Some m" for j m
    using lt[OF that] by simp
  have a: "ids_ok ?s1"
    using ids k by (auto simp: ids_ok_def p_subdivide_eq child_node_def intro: lt4)
  have b: "store_step (capacity this) p (Inr False) s ?s1"
    unfolding store_step_def
  proof (intro conjI allI impI)
    show "next_uuid s \<le> next_uuid ?s1" by (simp add: p_subdivide_eq)
  next
    fix j m assume m: "nodes s j = Some m"
    show "\<exists>n'. nodes ?s1 j = Some n' \<and> node_step (capacity this) p (Inr False) m n'"
    proof (cases "j = k")
      case True
      with m n u full c k show ?thesis
        by (auto simp: p_subdivide_eq node_step_def)
    next
      case False
      with lt[OF m] m k show ?thesis
        by (simp add: p_subdivide_eq node_step_def)
    qed
  qed
  have c': "node_inv (capacity this) ?s1" if inv: "node_inv (capacity this) s"
  proof -
    from inv n u have "0 \<le> capacity this" by (fastforce simp: node_inv_def)
    with inv k show ?thesis
      by (auto simp: node_inv_def p_subdivide_eq child_node_def)
  qed
  from a b c' show ?thesis by (simp add: ins_post_def)
qed

lemma p_insert_post:
  "p_insert this s nodeId p = Some y \<Longrightarrow> ids_ok s \<Longrightarrow> ins_post this p (fst y) s (snd y)"
proof (induction this s nodeId p y rule: p_insert.raw_induct[rotated 1, consumes 1])
  case (1 f this s nodeId p y)
  note IH = "1.IH" and eq = "1.hyps" and ids = "1.prems"
  show ?case
  proof (cases nodeId)
    case None
    with eq ids show ?thesis by (auto simp: ins_post_refl)
  next
    case (Some k)
    show ?thesis
    proof (cases "nodes s k")
      case None
      with Some eq ids show ?thesis by (auto simp: ins_post_refl)
    next
      case n: (Some n)
      show ?thesis
      proof (cases "contains (boundary n) p")
        case False
        with Some n eq ids show ?thesis by (auto simp: ins_post_refl)
      next
        case c: True
        show ?thesis
        proof (cases "int (length (points n)) < capacity this \<and> \<not> divided n")
          case True
          with Some n c eq have "y = (Inr True, put k (n\<lparr>points := points n @ [p]\<rparr>) s)"
            by simp
          with push_post[OF ids n _ _ c, of this] True show ?thesis by simp
        next
          case nopush: False
          have body: "ins_post this p r' s1 s2"
            if "f this s1 (ch d) p = Some (r', s2)" "ids_ok s1" for ch d s1 r' s2
            using IH[OF that] by simp
          show ?thesis
          proof (cases "divided n")
            case True
            show ?thesis
            proof (cases "children n")
              case None
              with Some n c nopush True eq ids show ?thesis by (auto simp: ins_post_refl)
            next
              case ch: (Some ch)
              with Some n c nopush True eq
              have "for_insert (\<lambda>dir s''. f this s'' (ch dir) p) dirs s = Some (fst y, snd y)"
                by simp
              from for_insert_post[where body = "\<lambda>dir s''. f this s'' (ch dir) p", OF body this ids]
              show ?thesis .
            qed
          next
            case False
            let ?ch = "[''ne'' \<mapsto> next_uuid s, ''nw'' \<mapsto> Suc (next_uuid s),
              ''se'' \<mapsto> Suc (Suc (next_uuid s)), ''sw'' \<mapsto> Suc (Suc (Suc (next_uuid s)))]"
            let ?s1 = "snd (p_subdivide s n)"
            from False nopush have full: "\<not> int (length (points n)) < capacity this" by simp
            note sp = subdivide_post[OF ids n False full c]
            then have ids1: "ids_ok ?s1" by (simp add: ins_post_def)
            from Some n c nopush False eq
            have "for_insert (\<lambda>dir s''. f this s'' (?ch dir) p) dirs ?s1 = Some (fst y, snd y)"
              by (simp add: p_subdivide_eq)
            from for_insert_post[where body = "\<lambda>dir s''. f this s'' (?ch dir) p", OF body this ids1]
            have "ins_post this p (fst y) ?s1 (snd y)" .
            with sp show ?thesis by (rule ins_post_trans)
          qed
        qed
      qed
    qed
  qed
qed

lemma store_step_divided_kept:
  "store_step cap p r s s' \<Longrightarrow> divided_kept s s'"
  unfolding divided_kept_def
proof (intro allI impI)
  fix k n assume st: "store_step cap p r s s'" and n: "nodes s k = Some n" and d: "divided n"
  from st n obtain m where m: "nodes s' k = Some m" "node_step cap p r n m"
    unfolding store_step_def by blast
  from node_step_divided[OF m(2) d] m(1) d show "\<exists>n'. nodes s' k = Some n' \<and> divided n'"
    by simp
qed

lemma store_step_newly_divided:
  assumes "store_step cap p r s s'" and "node_inv cap s"
    and "nodes s k = Some n" "\<not> divided n" "nodes s' k = Some n'" "divided n'"
  shows "contains (boundary n) p \<and> int (length (points n)) = cap"
proof -
  from assms(1,3) obtain m where "nodes s' k = Some m" "node_step cap p r n m"
    unfolding store_step_def by blast
  with assms(5) have "node_step cap p r n n'" by simp
  with assms(4,6) have "contains (boundary n) p" "\<not> int (length (points n)) < cap"
    by (auto simp: node_step_def)
  moreover from assms(2,3,4) have "int (length (points n)) \<le> cap"
    by (auto simp: node_inv_def)
  ultimately show ?thesis by simp
qed

lemma put_data_post:
  fixes i :: nat and d :: 'd and s :: "'d store"
  assumes "ids_ok s" and "nodes s k = Some n"
  defines "s' \<equiv> put k (n\<lparr>points := (points n)[i := (points n ! i)\<lparr>data := d\<rparr>]\<rparr>) s"
  shows "ids_ok s' \<and> divided_kept s s' \<and> (node_inv cap s \<longrightarrow> node_inv cap s')"
proof (intro conjI impI)
  show "ids_ok s'" using assms(1,2) by (auto simp: s'_def ids_ok_def put_def)
  show "divided_kept s s'" using assms(2) by (auto simp: s'_def divided_kept_def put_def)
  assume "node_inv cap s"
  then show "node_inv cap s'" using assms(2) by (auto simp: s'_def node_inv_def put_def)
qed

lemma same_post:
  "ids_ok s \<Longrightarrow> ids_ok s \<and> divided_kept s s \<and> (node_inv cap s \<longrightarrow> node_inv cap s)"
  by (simp add: divided_kept_def)

lemma p_updateNode_post:
  assumes "p_updateNode this s x y d = Some (r, s')" and "ids_ok s"
  shows "ids_ok s' \<and> divided_kept s s' \<and> (node_inv cap s \<longrightarrow> node_inv cap s')"
proof (cases "p_findNodeId this s x y")
  case None
  with assms(1) show ?thesis by (simp add: p_updateNode_def)
next
  case (Some a)
  show ?thesis
  proof (cases a)
    case (Inl e)
    with Some assms(1) have "s' = s" by (simp add: p_updateNode_def)
    with same_post[OF assms(2)] show ?thesis by simp
  next
    case (Inr opt)
    show ?thesis
    proof (cases opt)
      case None
      with Some Inr assms(1) have "s' = s" by (simp add: p_updateNode_def)
      with same_post[OF assms(2)] show ?thesis by simp
    next
      case k: (Some k)
      show ?thesis
      proof (cases "nodes s k")
        case None
        with Some Inr k assms(1) have "s' = s" by (simp add: p_updateNode_def)
        with same_post[OF assms(2)] show ?thesis by simp
      next
        case n: (Some n)
        show ?thesis
        proof (cases "findIndex (same_xy x y) (points n)")
          case None
          with Some Inr k n assms(1) have "s' = s" by (simp add: p_updateNode_def)
          with same_post[OF assms(2)] show ?thesis by simp
        next
          case i: (Some i)
          with Some Inr k n assms(1)
          have "s' = put k (n\<lparr>points := (points n)[i := (points n ! i)\<lparr>data := d\<rparr>]\<rparr>) s"
            by (simp add: p_updateNode_def)
          with put_data_post[OF assms(2) n, where cap = cap and i = i and d = d] show ?thesis by simp
        qed
      qed
    qed
  qed
qed

lemma update_post:
  assumes "update this s x y d = Some (r, s')" and "ids_ok s"
  shows "ids_ok s' \<and> divided_kept s s' \<and> (node_inv cap s \<longrightarrow> node_inv cap s')"
proof (cases "p_findPoint s (Some (rootId this)) x y")
  case None
  with assms(1) show ?thesis by (simp add: update_def)
next
  case (Some a)
  show ?thesis
  proof (cases a)
    case (Inl e)
    with Some assms(1) have "s' = s" by (simp add: update_def)
    with same_post[OF assms(2)] show ?thesis by simp
  next
    case (Inr opt)
    show ?thesis
    proof (cases opt)
      case None
      with Some Inr assms(1) have "s' = s" by (simp add: update_def)
      with same_post[OF assms(2)] show ?thesis by simp
    next
      case q: (Some q)
      show ?thesis
      proof (cases "p_updateNode this s (px q) (py q) d")
        case None
        with Some Inr q assms(1) show ?thesis by (simp add: update_def)
      next
        case u: (Some v)
        obtain r' s'' where v: "v = (r', s'')" by (cases v)
        with Some Inr q u assms(1) have "s'' = s'"
          by (cases r') (simp_all add: update_def)
        with u v p_updateNode_post[OF _ assms(2), where this = this and x = "px q" and y = "py q" and d = d and r = r' and s' = s' and cap = cap]
        show ?thesis by simp
      qed
    qed
  qed
qed

lemma insert_qt_post:
  assumes "insert_qt this s x y d = Some (r, s')" and "ids_ok s"
  shows "\<exists>r'. ins_post this \<lparr>px = x, py = y, data = d\<rparr> r' s s'"
proof (cases "p_insert this s (Some (rootId this)) \<lparr>px = x, py = y, data = d\<rparr>")
  case None
  with assms(1) show ?thesis by (simp add: insert_qt_def)
next
  case (Some v)
  obtain r' s'' where v: "v = (r', s'')" by (cases v)
  with Some assms(1) have "s'' = s'" by (cases r') (simp_all add: insert_qt_def)
  with Some v p_insert_post[OF _ assms(2), where this = this and nodeId = "Some (rootId this)"
      and p = "\<lparr>px = x, py = y, data = d\<rparr>" and y = "(r', s')"]
  show ?thesis by auto
qed

lemma full_leaf_divided:
  assumes ids: "ids_ok s" and n: "nodes s k = Some n" and u: "\<not> divided n"
    and full: "\<not> int (length (points n)) < capacity this" and c: "contains (boundary n) p"
    and ret: "p_insert this s (Some k) p = Some (r, s')"
  shows "\<exists>n'. nodes s' k = Some n' \<and> divided n'"
proof -
  let ?ch = "[''ne'' \<mapsto> next_uuid s, ''nw'' \<mapsto> Suc (next_uuid s),
              ''se'' \<mapsto> Suc (Suc (next_uuid s)), ''sw'' \<mapsto> Suc (Suc (Suc (next_uuid s)))]"
  let ?s1 = "snd (p_subdivide s n)"
  from ids n have k: "node_id n = k" by (auto simp: ids_ok_def)
  from subdivide_post[OF ids n u full c] have ids1: "ids_ok ?s1" by (simp add: ins_post_def)
  have "p_insert this s (Some k) p =
          for_insert (\<lambda>dir s''. p_insert this s'' (?ch dir) p) dirs ?s1"
    using n u full c by (subst p_insert.simps) (simp add: p_subdivide_eq)
  with ret have loop: "for_insert (\<lambda>dir s''. p_insert this s'' (?ch dir) p) dirs ?s1 = Some (r, s')"
    by simp
  have body: "ins_post this p r' s1 s2"
    if "p_insert this s1 (?ch d) p = Some (r', s2)" "ids_ok s1" for d s1 r' s2
    using p_insert_post[OF that] by simp
  from for_insert_post[where body = "\<lambda>dir s''. p_insert this s'' (?ch dir) p", OF body loop ids1]
  have "store_step (capacity this) p r ?s1 s'" by (simp add: ins_post_def)
  then have "divided_kept ?s1 s'" by (rule store_step_divided_kept)
  moreover have "nodes ?s1 k = Some (n\<lparr>divided := True, children := Some ?ch\<rparr>)"
    using k by (simp add: p_subdivide_eq)
  ultimately show ?thesis by (auto simp: divided_kept_def)
qed

section \<open>Range queries on a tree\<close>

text \<open>
  \<open>tree_ok\<close>: every point of a subtree lies in the boundary of the root of that subtree.
  \<open>_insert\<close> stores a point only below nodes that have found it inside their boundary,
  whatever the boundaries of the children are. On such a tree the pruning of \<open>_query\<close>
  loses nothing.
\<close>

fun idlist :: "'d qtree \<Rightarrow> nat list" where
  "idlist (QLeaf k b ps) = [k]"
| "idlist (QNode k b ps t1 t2 t3 t4) = k # idlist t1 @ idlist t2 @ idlist t3 @ idlist t4"





section \<open>Insertion into a tree\<close>




lemma root_in_idlist: "root t \<in> set (idlist t)"
  by (cases t) simp_all






















section \<open>Sequences of insertions\<close>



text \<open>
  \<open>accepted\<close>: the points of such a sequence for which \<open>_insert\<close> returned true, in the
  order of the calls.
\<close>

fun accepted :: "tree \<Rightarrow> 'd store \<Rightarrow> 'd point list \<Rightarrow> 'd point list option" where
  "accepted this s [] = Some []"
| "accepted this s (p # ps) =
     (case p_insert this s (Some (rootId this)) p of
        Some (Inr a, s') \<Rightarrow> map_option (\<lambda>acc. if a then p # acc else acc) (accepted this s' ps)
      | _ \<Rightarrow> None)"





section \<open>A worked example\<close>

text \<open>
  The scenario of the specification: the universe \<open>[0,100] \<times> [0,100]\<close>, capacity 4, the
  points (10,10), (20,20), (30,30), (40,40) and then (15,15), which forces the root to
  subdivide.
\<close>

definition new_store :: "'d store" where
  "new_store = \<lparr>meta_root = None, nodes = Map.empty, next_uuid = 0, writes = []\<rparr>"

definition universe :: rectangle where
  "universe = \<lparr>rx = 50, ry = 50, rw = 50, rh = 50\<rparr>"

definition ex_init :: "tree \<times> string store" where
  "ex_init = init new_store universe (Some 4)"

lemma ex_init_eq:
  "ex_init = (\<lparr>rootId = 0, capacity = 4\<rparr>,
     \<lparr>meta_root = Some 0,
      nodes = [0 \<mapsto> \<lparr>node_id = 0, boundary = universe, points = [], divided = False,
                       children = None\<rparr>],
      next_uuid = 1, writes = [MetaRoot, NodeKey 0]\<rparr>)"
  by (simp add: ex_init_def new_store_def init_def uuidv4_def put_meta_def put_def)

definition ex_root4 :: "string node" where
  "ex_root4 = \<lparr>node_id = 0, boundary = universe,
      points = [\<lparr>px = 10, py = 10, data = ''a''\<rparr>, \<lparr>px = 20, py = 20, data = ''b''\<rparr>,
                \<lparr>px = 30, py = 30, data = ''c''\<rparr>, \<lparr>px = 40, py = 40, data = ''d''\<rparr>],
      divided = False, children = None\<rparr>"

definition ex_store4 :: "string store" where
  "ex_store4 = \<lparr>meta_root = Some 0, nodes = [0 \<mapsto> ex_root4], next_uuid = 1,
      writes = [MetaRoot, NodeKey 0, NodeKey 0, NodeKey 0, NodeKey 0, NodeKey 0]\<rparr>"


lemma ex_store4_fresh: "\<forall>i \<in> dom (nodes ex_store4). i < next_uuid ex_store4"
  by (simp add: ex_store4_def)

lemma ex_store4_root: "nodes ex_store4 0 = Some ex_root4" "node_id ex_root4 = 0"
  by (simp_all add: ex_store4_def ex_root4_def)

definition ex_tree :: "string qtree" where
  "ex_tree = QNode 0 universe (points ex_root4)
     (QLeaf 1 \<lparr>rx = 75, ry = 25, rw = 25, rh = 25\<rparr> [])
     (QLeaf 2 \<lparr>rx = 25, ry = 25, rw = 25, rh = 25\<rparr> [\<lparr>px = 15, py = 15, data = ''e''\<rparr>])
     (QLeaf 3 \<lparr>rx = 75, ry = 75, rw = 25, rh = 25\<rparr> [])
     (QLeaf 4 \<lparr>rx = 25, ry = 75, rw = 25, rh = 25\<rparr> [])"

definition ex_store :: "string store" where
  "ex_store = \<lparr>meta_root = Some 0,
      nodes = [0 \<mapsto> ex_root4\<lparr>divided := True,
                    children := Some [''ne'' \<mapsto> 1, ''nw'' \<mapsto> 2, ''se'' \<mapsto> 3, ''sw'' \<mapsto> 4]\<rparr>,
               1 \<mapsto> \<lparr>node_id = 1, boundary = \<lparr>rx = 75, ry = 25, rw = 25, rh = 25\<rparr>,
                      points = [], divided = False, children = None\<rparr>,
               2 \<mapsto> \<lparr>node_id = 2, boundary = \<lparr>rx = 25, ry = 25, rw = 25, rh = 25\<rparr>,
                      points = [\<lparr>px = 15, py = 15, data = ''e''\<rparr>], divided = False,
                      children = None\<rparr>,
               3 \<mapsto> \<lparr>node_id = 3, boundary = \<lparr>rx = 75, ry = 75, rw = 25, rh = 25\<rparr>,
                      points = [], divided = False, children = None\<rparr>,
               4 \<mapsto> \<lparr>node_id = 4, boundary = \<lparr>rx = 25, ry = 75, rw = 25, rh = 25\<rparr>,
                      points = [], divided = False, children = None\<rparr>],
      next_uuid = 5,
      writes = [MetaRoot, NodeKey 0, NodeKey 0, NodeKey 0, NodeKey 0, NodeKey 0,
                NodeKey 1, NodeKey 2, NodeKey 3, NodeKey 4, NodeKey 0, NodeKey 2]\<rparr>"

lemma ex_store_reached:
  "insert_qt (fst ex_init) ex_store4 15 15 ''e'' = Some (Inr (), ex_store)"
  apply (simp add: ex_store_def ex_init_eq ex_root4_def ex_store4_def insert_qt_def
        p_insert.simps universe_def contains_def contains_xy_def put_def p_subdivide_eq
        child_node_def child_boundary_simps dirs_def float_ops fl_numeral)
  apply (rule ext)
  apply (simp add: eval_nat_numeral)
  done

lemma ex_rep: "rep ex_store ex_tree"
  by (simp add: ex_tree_def ex_store_def ex_root4_def)

lemma ex_root: "root ex_tree = rootId (fst ex_init)"
  by (simp add: ex_tree_def ex_init_eq)


lemma ex_store4_ids: "ids_ok ex_store4"
  by (simp add: ids_ok_def ex_store4_def ex_root4_def)

lemma ex_store4_inv: "node_inv 4 ex_store4"
  by (simp add: node_inv_def ex_store4_def ex_root4_def)



section \<open>An example at the limit of the integers\<close>






























section \<open>Examples with the smallest double and with a tie\<close>

text \<open>
  \<open>2^-1074\<close> is the least positive double; half of it, and half of its negative, round to
  zero. \<open>edge_store\<close> is the tree of the worked example after the single insertion of
  \<open>(0, 50)\<close>. \<open>tie_store\<close> is that tree after the insertions of \<open>(3, 2^-30)\<close> and \<open>(3, 0)\<close>:
  seen from the origin their squared distances are \<open>9 + 2^-60\<close> and 9, and both are
  computed as 9.
\<close>

definition edge_store :: "string store" where
  "edge_store = \<lparr>meta_root = Some 0,
      nodes = [0 \<mapsto> \<lparr>node_id = 0, boundary = universe,
                       points = [\<lparr>px = 0, py = 50, data = ''z''\<rparr>], divided = False,
                       children = None\<rparr>],
      next_uuid = 1, writes = [MetaRoot, NodeKey 0, NodeKey 0]\<rparr>"

lemma edge_store_reached:
  "insert_qt (fst ex_init) (snd ex_init) 0 50 ''z'' = Some (Inr (), edge_store)"
  by (simp add: ex_init_eq edge_store_def insert_qt_def p_insert.simps universe_def
        contains_def contains_xy_def put_def)

lemma fl_least: "fl (1 / 2 ^ 1074) = 1 / 2 ^ 1074" "fl (- (1 / 2 ^ 1074)) = - (1 / 2 ^ 1074)"
  using fl_exact[of 1 "- 1074"] fl_exact[of "- 1" "- 1074"] by (simp_all add: power_int_minus)

lemma fl_half_least: "fl (1 / 2 ^ 1074 / 2) = 0" "fl (- (1 / 2 ^ 1074) / 2) = 0"
  by (subst fl_at_q[where q = "1 / 2 ^ 1074" and j = "- 1074"]; simp add: rne_def power_int_minus)+

lemma edge_query_rect:
  "query_rect (1 / 2 ^ 1074) 0 0 100 = \<lparr>rx = 0, ry = 50, rw = 0, rh = 50\<rparr>"
  unfolding query_rect_def float_ops
  by (simp only: add_0_right add_0_left diff_0 diff_0_right fl_least fl_half_least)
     (simp add: fl_numeral)








section \<open>An example with 0.1 and 0.3\<close>

text \<open>
  \<open>tenth\<close> and \<open>three_tenths\<close> are the doubles that the literals \<open>0.1\<close> and \<open>0.3\<close> denote.
  Their difference, halved, is a double just below \<open>tenth\<close>, while their sum, halved, is
  the double of \<open>0.2\<close>, which lies a little more than that above \<open>tenth\<close>: the rectangle that
  \<open>range(0.1, 0.1, 0.3, 0.3)\<close> queries does not reach its own corner \<open>(0.1, 0.1)\<close>.
  \<open>corner_store\<close> is the tree of the worked example after the single insertion of that
  corner.
\<close>

definition tenth :: real where
  "tenth = 3602879701896397 / 2 ^ 55"

definition three_tenths :: real where
  "three_tenths = 5404319552844595 / 2 ^ 54"

lemma tenth_double: "fl (1 / 10) = tenth" "fl tenth = tenth"
proof -
  show "fl (1 / 10) = tenth"
    unfolding tenth_def
    by (subst fl_at_q[where q = "1 / 2 ^ 56" and j = "- 56"]) (simp_all add: rne_def power_int_minus)
  show "fl tenth = tenth"
    unfolding tenth_def using fl_exact[of 3602879701896397 "- 55"] by (simp add: power_int_minus)
qed

lemma three_tenths_double: "fl (3 / 10) = three_tenths" "fl three_tenths = three_tenths"
proof -
  show "fl (3 / 10) = three_tenths"
    unfolding three_tenths_def
    by (subst fl_at_q[where q = "1 / 2 ^ 54" and j = "- 54"]) (simp_all add: rne_def power_int_minus)
  show "fl three_tenths = three_tenths"
    unfolding three_tenths_def using fl_exact[of 5404319552844595 "- 54"] by (simp add: power_int_minus)
qed








section \<open>Claims\<close>




text \<open>
  C2. \<open>update(x, y, newPayload)\<close> on a point stored in a descendant of the root should
  replace the payload and return success. It does not: \<open>_findPoint\<close> finds the point
  (15,15) of the example in the child nw, but \<open>_findNodeIdRecursive\<close> recurses on the
  child id instead of the child record and throws a TypeError; the store is left as it was.
\<close>

theorem update_descendant_type_error:
  "p_findPoint ex_store (Some (rootId (fst ex_init))) 15 15 =
     Some (Inr (Some \<lparr>px = 15, py = 15, data = ''e''\<rparr>)) \<and>
   update (fst ex_init) ex_store 15 15 ''z'' = Some (Inl TypeError, ex_store)"
proof -
  have fp: "p_findPoint ex_store (Some (rootId (fst ex_init))) 15 15 =
              Some (Inr (Some \<lparr>px = 15, py = 15, data = ''e''\<rparr>))"
    using p_findPoint_refines[OF ex_rep, of 15 15]
    by (simp add: ex_init_eq ex_tree_def ex_root4_def universe_def contains_xy_def same_xy_def)
  have fid: "p_findNodeId (fst ex_init) ex_store 15 15 = Some (Inl TypeError)"
    by (simp add: p_findNodeId_def get_node_def ex_init_eq ex_store_def ex_root4_def
          universe_def contains_xy_def same_xy_def p_findNodeIdRecursive.simps dirs_def)
  show ?thesis
    by (simp add: fp update_def p_updateNode_def fid)
qed

text \<open>
  C3 (as amended). When the root's boundary does not contain the point,
  \<open>insert(x, y, payload)\<close> returns normally, without any error, and leaves the store
  unchanged: the point is dropped silently.
\<close>

theorem insert_outside_dropped:
  "nodes s (rootId this) = Some n \<Longrightarrow>
   \<not> contains (boundary n) \<lparr>px = x, py = y, data = d\<rparr> \<Longrightarrow>
   insert_qt this s x y d = Some (Inr (), s)"
  by (simp add: insert_qt_def p_insert_outside)

theorem insert_outside_dropped_witness:
  "insert_qt (fst ex_init) (snd ex_init) 200 200 ''q'' = Some (Inr (), snd ex_init)"
  using insert_outside_dropped [of "snd ex_init" "fst ex_init"
      "\<lparr>node_id = 0, boundary = universe, points = [], divided = False, children = None\<rparr>"
      200 200 "''q''"]
  by (simp add: ex_init_eq universe_def contains_def contains_xy_def)

text \<open>
  C3 as stated fails: the point (200,200) lies outside the universe of the example, and
  \<open>insert\<close> returns normally instead of raising an error.
\<close>

theorem insert_outside_no_error:
  "\<not> contains universe \<lparr>px = 200, py = 200, data = ''q''\<rparr> \<and>
   nodes (snd ex_init) (rootId (fst ex_init)) =
     Some \<lparr>node_id = 0, boundary = universe, points = [], divided = False, children = None\<rparr> \<and>
   insert_qt (fst ex_init) (snd ex_init) 200 200 ''q'' = Some (Inr (), snd ex_init)"
  by (simp add: ex_init_eq universe_def contains_def contains_xy_def insert_qt_def
        p_insert_outside)

text \<open>
  C4. Subdividing a stored node leaves its points as they are (the children are created
  empty), writes the four child records in the order ne, nw, se, sw and only then the
  parent, changes in the parent nothing but \<open>divided\<close> and \<open>children\<close>, touches no other
  record, and a later query of the node still returns its points that match.
\<close>

theorem subdivide_keeps_points:
  assumes "nodes s k = Some node" and "node_id node = k"
    and "\<forall>i \<in> dom (nodes s). i < next_uuid s"
    and "p_subdivide s node = (node', s')"
  shows "node' = node\<lparr>divided := True, children := children node'\<rparr> \<and>
     points node' = points node \<and>
     nodes s' k = Some node' \<and>
     (\<exists>ne nw se sw.
        children node' = Some [''ne'' \<mapsto> ne, ''nw'' \<mapsto> nw, ''se'' \<mapsto> se, ''sw'' \<mapsto> sw] \<and>
        writes s' = writes s @ [NodeKey ne, NodeKey nw, NodeKey se, NodeKey sw, NodeKey k] \<and>
        (\<forall>c \<in> {ne, nw, se, sw}. c \<noteq> k \<and> nodes s c = None \<and>
           (\<exists>n. nodes s' c = Some n \<and> points n = [])) \<and>
        (\<forall>i. i \<notin> {ne, nw, se, sw, k} \<longrightarrow> nodes s' i = nodes s i)) \<and>
     meta_root s' = meta_root s \<and>
     (\<forall>rng found. p_query s' (Some k) rng found =
        Some (Inr (found @ (if intersects (boundary node) rng
                            then filter (contains rng) (points node) else []))))"
proof -
  let ?n = "next_uuid s"
  let ?b = "boundary node"
  let ?ch = "[''ne'' \<mapsto> ?n, ''nw'' \<mapsto> Suc ?n, ''se'' \<mapsto> Suc (Suc ?n),
              ''sw'' \<mapsto> Suc (Suc (Suc ?n))]"
  from assms(1,3) have k: "k < ?n" by (auto simp: dom_def)
  have fresh: "nodes s i = None" if "?n \<le> i" for i
    using assms(3) that by (cases "nodes s i") (auto simp: dom_def)
  from assms(4) have node': "node' = node\<lparr>divided := True, children := Some ?ch\<rparr>"
    and s': "s' = s\<lparr>nodes := (nodes s)
            (?n \<mapsto> child_node ?b ?n ''ne'',
             Suc ?n \<mapsto> child_node ?b (Suc ?n) ''nw'',
             Suc (Suc ?n) \<mapsto> child_node ?b (Suc (Suc ?n)) ''se'',
             Suc (Suc (Suc ?n)) \<mapsto> child_node ?b (Suc (Suc (Suc ?n))) ''sw'',
             node_id node \<mapsto> node'),
         next_uuid := ?n + 4,
         writes := writes s @ [NodeKey ?n, NodeKey (Suc ?n), NodeKey (Suc (Suc ?n)),
                               NodeKey (Suc (Suc (Suc ?n))), NodeKey (node_id node)]\<rparr>"
    unfolding p_subdivide_eq by auto
  let ?t = "QNode k ?b (points node)
              (QLeaf ?n (child_boundary ?b ''ne'') [])
              (QLeaf (Suc ?n) (child_boundary ?b ''nw'') [])
              (QLeaf (Suc (Suc ?n)) (child_boundary ?b ''se'') [])
              (QLeaf (Suc (Suc (Suc ?n))) (child_boundary ?b ''sw'') [])"
  have rep': "rep s' ?t"
    using k assms(2) by (simp add: s' node' child_node_def node_eq_iff)
  have q: "p_query s' (Some k) rng found =
        Some (Inr (found @ (if intersects ?b rng then filter (contains rng) (points node) else [])))"
    for rng found
    using p_query_refines[OF rep', of rng found] by simp
  have a: "node' = node\<lparr>divided := True, children := children node'\<rparr>"
    by (simp add: node')
  have b: "points node' = points node" by (simp add: node')
  have c: "nodes s' k = Some node'" using assms(2) by (simp add: s')
  have d: "meta_root s' = meta_root s" by (simp add: s')
  have e: "\<exists>ne nw se sw.
        children node' = Some [''ne'' \<mapsto> ne, ''nw'' \<mapsto> nw, ''se'' \<mapsto> se, ''sw'' \<mapsto> sw] \<and>
        writes s' = writes s @ [NodeKey ne, NodeKey nw, NodeKey se, NodeKey sw, NodeKey k] \<and>
        (\<forall>c \<in> {ne, nw, se, sw}. c \<noteq> k \<and> nodes s c = None \<and>
           (\<exists>n. nodes s' c = Some n \<and> points n = [])) \<and>
        (\<forall>i. i \<notin> {ne, nw, se, sw, k} \<longrightarrow> nodes s' i = nodes s i)"
    apply (rule exI[of _ ?n], rule exI[of _ "Suc ?n"], rule exI[of _ "Suc (Suc ?n)"],
           rule exI[of _ "Suc (Suc (Suc ?n))"])
    using k assms(2) by (simp add: node' s' fresh child_node_def)
  from a b c d e q show ?thesis by blast
qed

theorem subdivide_keeps_points_witness:
  "points (fst (p_subdivide ex_store4 ex_root4)) = points ex_root4 \<and>
   nodes (snd (p_subdivide ex_store4 ex_root4)) 0 = Some (fst (p_subdivide ex_store4 ex_root4)) \<and>
   writes (snd (p_subdivide ex_store4 ex_root4)) =
     writes ex_store4 @ [NodeKey 1, NodeKey 2, NodeKey 3, NodeKey 4, NodeKey 0]"
  using subdivide_keeps_points [OF ex_store4_root ex_store4_fresh,
      of "fst (p_subdivide ex_store4 ex_root4)" "snd (p_subdivide ex_store4 ex_root4)"]
  by (simp add: p_subdivide_eq ex_store4_def ex_root4_def)




text \<open>
  C6. On a store whose records are stored under their own ids: \<open>insert\<close> and \<open>update\<close>
  keep every divided node divided and preserve the invariant that an undivided node has
  no \<open>children\<close> field and at most \<open>capacity\<close> points (\<open>range\<close> and \<open>nearest\<close> write
  nothing; they take the store and return only their result). Under the invariant, an
  insertion subdivides only undivided nodes that contain the point and hold exactly
  \<open>capacity\<close> points, and a call of \<open>_insert\<close> on an undivided node leaves it divided
  exactly when the node contains the point and holds \<open>capacity\<close> points.
\<close>

theorem node_state_invariant:
  fixes s :: "'d store"
  assumes ids: "ids_ok s"
  shows
    "(\<forall>r s'. insert_qt this s x y d = Some (r, s') \<longrightarrow>
        ids_ok s' \<and> divided_kept s s' \<and>
        (node_inv (capacity this) s \<longrightarrow>
           node_inv (capacity this) s' \<and>
           (\<forall>k n n'. nodes s k = Some n \<and> \<not> divided n \<and> nodes s' k = Some n' \<and> divided n' \<longrightarrow>
              contains (boundary n) \<lparr>px = x, py = y, data = d\<rparr> \<and>
              int (length (points n)) = capacity this))) \<and>
     (\<forall>r s'. update this s x y d = Some (r, s') \<longrightarrow>
        ids_ok s' \<and> divided_kept s s' \<and>
        (node_inv (capacity this) s \<longrightarrow> node_inv (capacity this) s')) \<and>
     (\<forall>k n p r s'. node_inv (capacity this) s \<and> nodes s k = Some n \<and> \<not> divided n \<and>
        p_insert this s (Some k) p = Some (r, s') \<longrightarrow>
        ((\<exists>n'. nodes s' k = Some n' \<and> divided n') \<longleftrightarrow>
         contains (boundary n) p \<and> int (length (points n)) = capacity this))"
proof (intro conjI allI impI)
  fix r s' assume i: "insert_qt this s x y d = Some (r, s')"
  from insert_qt_post[OF i ids] obtain r' where
    po: "ins_post this \<lparr>px = x, py = y, data = d\<rparr> r' s s'" by blast
  then have st: "store_step (capacity this) \<lparr>px = x, py = y, data = d\<rparr> r' s s'"
    by (simp add: ins_post_def)
  from po show "ids_ok s'" by (simp add: ins_post_def)
  from st show "divided_kept s s'" by (rule store_step_divided_kept)
  {
    assume inv: "node_inv (capacity this) s"
    with po show "node_inv (capacity this) s'" by (simp add: ins_post_def)
    fix k n n'
    assume "nodes s k = Some n \<and> \<not> divided n \<and> nodes s' k = Some n' \<and> divided n'"
    then have h: "nodes s k = Some n" "\<not> divided n" "nodes s' k = Some n'" "divided n'"
      by simp_all
    from store_step_newly_divided[OF st inv h]
    show "contains (boundary n) \<lparr>px = x, py = y, data = d\<rparr>"
      and "int (length (points n)) = capacity this" by simp_all
  }
next
  fix r s' assume u: "update this s x y d = Some (r, s')"
  note up = update_post[OF u ids, of "capacity this"]
  from up show "ids_ok s'" by simp
  from up show "divided_kept s s'" by simp
  assume "node_inv (capacity this) s"
  with up show "node_inv (capacity this) s'" by simp
next
  fix k n p r s'
  assume a: "node_inv (capacity this) s \<and> nodes s k = Some n \<and> \<not> divided n \<and>
        p_insert this s (Some k) p = Some (r, s')"
  then have inv: "node_inv (capacity this) s" and n: "nodes s k = Some n"
    and u: "\<not> divided n" and ret: "p_insert this s (Some k) p = Some (r, s')"
    by simp_all
  from p_insert_post[OF ret ids] have st: "store_step (capacity this) p r s s'"
    by (simp add: ins_post_def)
  show "(\<exists>n'. nodes s' k = Some n' \<and> divided n') \<longleftrightarrow>
         contains (boundary n) p \<and> int (length (points n)) = capacity this"
  proof
    assume "\<exists>n'. nodes s' k = Some n' \<and> divided n'"
    then obtain n' where "nodes s' k = Some n'" "divided n'" by blast
    from store_step_newly_divided[OF st inv n u this]
    show "contains (boundary n) p \<and> int (length (points n)) = capacity this" .
  next
    assume "contains (boundary n) p \<and> int (length (points n)) = capacity this"
    then have "contains (boundary n) p" "\<not> int (length (points n)) < capacity this" by simp_all
    from full_leaf_divided[OF ids n u this(2) this(1) ret]
    show "\<exists>n'. nodes s' k = Some n' \<and> divided n'" .
  qed
qed

theorem node_state_invariant_witness:
  "ids_ok ex_store4 \<and> node_inv 4 ex_store4 \<and>
   insert_qt (fst ex_init) ex_store4 15 15 ''e'' = Some (Inr (), ex_store) \<and>
   ids_ok ex_store \<and> node_inv 4 ex_store \<and> divided_kept ex_store4 ex_store"
proof -
  have c: "capacity (fst ex_init) = 4" by (simp add: ex_init_eq)
  from node_state_invariant[OF ex_store4_ids, of "fst ex_init" 15 15 "''e''"]
    ex_store_reached ex_store4_inv c
  have "ids_ok ex_store \<and> divided_kept ex_store4 ex_store \<and> node_inv 4 ex_store"
    by simp
  with ex_store4_ids ex_store4_inv ex_store_reached show ?thesis by simp
qed




text \<open>
  C8. Initialisation is idempotent: a second initialisation on the store the first one
  left returns the same root id and changes nothing in the store; on a store without a
  root record the first one writes the root id and then the empty root node; and every
  later initialisation on a store whose root record names that id reuses it and leaves
  the store as it is.
\<close>

theorem init_idempotent:
  fixes s :: "'d store"
  assumes "init s b cap = (t1, s1)" and "init s1 b' cap' = (t2, s2)"
  shows "rootId t2 = rootId t1 \<and> s2 = s1 \<and> meta_root s1 = Some (rootId t1) \<and>
         (meta_root s = None \<longrightarrow>
            nodes s1 (rootId t1) =
              Some \<lparr>node_id = rootId t1, boundary = b, points = [], divided = False,
                    children = None\<rparr> \<and>
            writes s1 = writes s @ [MetaRoot, NodeKey (rootId t1)]) \<and>
         (\<forall>s' :: 'd store. meta_root s' = Some (rootId t1) \<longrightarrow>
            snd (init s' b' cap') = s' \<and> rootId (fst (init s' b' cap')) = rootId t1)"
proof -
  have m1: "meta_root s1 = Some (rootId t1)"
  proof (cases "meta_root s")
    case None
    from assms(1) show ?thesis unfolding init_fresh[OF None] by auto
  next
    case (Some r)
    from assms(1) show ?thesis unfolding init_existing[OF Some] using Some by auto
  qed
  from assms(2) have second: "rootId t2 = rootId t1" "s2 = s1"
    unfolding init_existing[OF m1] by auto
  have first: "nodes s1 (rootId t1) =
              Some \<lparr>node_id = rootId t1, boundary = b, points = [], divided = False,
                    children = None\<rparr> \<and>
            writes s1 = writes s @ [MetaRoot, NodeKey (rootId t1)]" if "meta_root s = None"
    using assms(1) unfolding init_fresh[OF that] by auto
  have later: "snd (init s' b' cap') = s' \<and> rootId (fst (init s' b' cap')) = rootId t1"
    if "meta_root s' = Some (rootId t1)" for s' :: "'d store"
    by (simp add: init_existing[OF that])
  from m1 second first later show ?thesis by blast
qed

theorem init_idempotent_witness:
  "rootId (fst (init (snd ex_init) universe None)) = rootId (fst ex_init) \<and>
   snd (init (snd ex_init) universe None) = snd ex_init \<and>
   meta_root (snd ex_init) = Some (rootId (fst ex_init))"
proof -
  have h1: "init new_store universe (Some 4) = (fst ex_init, snd ex_init)"
    by (simp add: ex_init_def)
  have h2: "init (snd ex_init) universe None =
              (fst (init (snd ex_init) universe None), snd (init (snd ex_init) universe None))"
    by simp
  show ?thesis using init_idempotent [OF h1 h2] by blast
qed

text \<open>
  C9. On a store that holds a tree, \<open>update(x, y, newPayload)\<close> fails with "Point not
  found" when no point of the tree has exactly the coordinates \<open>(x, y)\<close>, and the store is
  unchanged.
\<close>

theorem update_absent_fails:
  assumes "rep s t" and "root t = rootId this"
    and "\<forall>p \<in> set (all_points t). \<not> (px p = x \<and> py p = y)"
  shows "update this s x y d = Some (Inl PointNotFound, s)"
proof -
  from assms(3) have "find_t x y t = None"
    by (intro find_t_None) (simp add: same_xy_def)
  with p_findPoint_refines[OF assms(1), of x y] assms(2)
  show ?thesis by (simp add: update_def)
qed

theorem update_absent_fails_witness:
  "update (fst ex_init) ex_store 16 15 ''z'' = Some (Inl PointNotFound, ex_store)"
  using update_absent_fails [OF ex_rep ex_root, of 16 15 "''z''"]
  by (simp add: ex_tree_def ex_root4_def)

text \<open>
  C10 (as amended). On a store that holds a tree, \<open>range(minX, minY, maxX, maxY)\<close> returns
  the empty sequence when \<open>minX\<close> exceeds \<open>maxX\<close>, or \<open>minY\<close> exceeds \<open>maxY\<close>, by at least
  \<open>2^-1073\<close>, which two different doubles do unless they differ by \<open>2^-1074\<close> exactly. The
  query only reads the store.
\<close>

theorem range_inverted_empty:
  assumes "rep s t" and "root t = rootId this"
    and "maxX - minX \<le> - (2 / 2 ^ 1074) \<or> maxY - minY \<le> - (2 / 2 ^ 1074)"
  shows "range_qt this s minX minY maxX maxY = Some (Inr [])"
proof -
  let ?r = "query_rect minX minY maxX maxY"
  from assms(3) have "rw ?r < 0 \<or> rh ?r < 0"
    by (auto simp: query_rect_def intro: half_extent_negative)
  then have "query_t ?r t = []" by (rule query_t_inverted)
  with p_query_refines[OF assms(1), of ?r "[]"] assms(2)
  show ?thesis by (simp add: range_qt_def)
qed

theorem range_inverted_empty_witness:
  "range_qt (fst ex_init) ex_store 50 50 0 0 = Some (Inr [])"
  using range_inverted_empty [OF ex_rep ex_root, where minX = 50 and minY = 50
      and maxX = 0 and maxY = 0] by simp

text \<open>
  C10 as stated fails: with \<open>(0, 50)\<close> stored, \<open>range(2^-1074, 0, 0, 100)\<close> has inverted
  corners on the x axis and returns the stored point. The half-extent \<open>(0 - 2^-1074) / 2\<close>
  rounds to zero, and the rectangle with center \<open>(0, 50)\<close> and half-extents \<open>(0, 50)\<close>
  contains the point.
\<close>

theorem range_inverted_returns:
  "(0::real) < 1 / 2 ^ 1074 \<and>
   insert_qt (fst ex_init) (snd ex_init) 0 50 ''z'' = Some (Inr (), edge_store) \<and>
   range_qt (fst ex_init) edge_store (1 / 2 ^ 1074) 0 0 100 =
     Some (Inr [\<lparr>px = 0, py = 50, data = ''z''\<rparr>])"
proof -
  have "range_qt (fst ex_init) edge_store (1 / 2 ^ 1074) 0 0 100 =
     Some (Inr [\<lparr>px = 0, py = 50, data = ''z''\<rparr>])"
    unfolding range_qt_def edge_query_rect
    by (simp add: ex_init_eq edge_store_def universe_def p_query.simps get_node_def
          intersects_def contains_def contains_xy_def)
  with edge_store_reached show ?thesis by simp
qed

end
